theory Spec2Isabelle
  imports Main "HOL-Library.Word"
begin

unbundle bit_operations_syntax

section \<open>Memory: the file buffer and the pointers into it\<close>

text \<open>
  \<^verbatim>\<open>CSVStaticTable\<close> keeps the whole file in one \<^verbatim>\<open>char* buf\<close> and stores
  \<^verbatim>\<open>const char*\<close> pointers into it. The buffer is a list of bytes and a \<^verbatim>\<open>char*\<close> into
  it is an index.
\<close>

abbreviation NUL :: char where "NUL \<equiv> CHR 0x00"
abbreviation DQ :: char where "DQ \<equiv> CHR 0x22"
abbreviation COMMA :: char where "COMMA \<equiv> CHR '',''"
abbreviation HASH :: char where "HASH \<equiv> CHR ''#''"

definition CRLF :: string where
  "CRLF = [CHR 0x0D, CHR 0x0A]"

text \<open>
  What goes wrong without a return value: a read or write that leaves the buffer
  (\<open>BufferOverrun\<close>), a \<^verbatim>\<open>std::vector\<close> accessed or erased at a position it does not
  have (\<open>OutOfRange\<close>), a pointer into a buffer that has been deleted (\<open>Dangling\<close>).
\<close>

datatype fault = BufferOverrun | OutOfRange | Dangling

text \<open>
  A stored field pointer is one of three: an index into the buffer the table holds
  (\<open>BufPtr\<close>); a string literal of the program (\<open>Literal\<close>, the \<^verbatim>\<open>"name"\<close> of the
  headerless mode); or a pointer into an earlier buffer (\<open>OldPtr\<close>). \<^verbatim>\<open>ReadFile\<close>
  replaces \<^verbatim>\<open>buf\<close> without deleting the buffer it held, and nothing writes to that
  buffer again, so a pointer into it reads for ever what it read at that moment: a string,
  or a fault.
\<close>

datatype cptr = BufPtr nat | Literal string | OldPtr "fault + string"

text \<open>The NUL-terminated string that starts at index \<open>p\<close> of the buffer.\<close>

definition c_str :: "char list \<Rightarrow> nat \<Rightarrow> fault + string" where
  "c_str mem p =
     (if NUL \<in> set (drop p mem) then Inr (takeWhile (\<lambda>c. c \<noteq> NUL) (drop p mem))
      else Inl BufferOverrun)"

fun str_of :: "char list option \<Rightarrow> cptr \<Rightarrow> fault + string" where
  "str_of b (Literal s) = Inr s"
| "str_of b (OldPtr r) = r"
| "str_of None (BufPtr p) = Inl Dangling"
| "str_of (Some mem) (BufPtr p) = c_str mem p"

text \<open>
  What a stored pointer becomes when the table takes a new buffer and keeps the old one
  allocated: a pointer into the buffer held so far becomes a pointer into an earlier
  buffer, with what it reads there.
\<close>

fun detach :: "char list option \<Rightarrow> cptr \<Rightarrow> cptr" where
  "detach b (BufPtr p) = OldPtr (str_of b (BufPtr p))"
| "detach b (Literal s) = Literal s"
| "detach b (OldPtr r) = OldPtr r"

section \<open>The tokenizer\<close>

text \<open>
  \<^verbatim>\<open>strstr(ctx, _Delim)\<close>: the first occurrence of the delimiter inside the
  NUL-terminated string at \<open>ctx\<close>, as an index of the buffer, or NULL (\<open>None\<close>).
\<close>

fun find_str :: "string \<Rightarrow> string \<Rightarrow> nat option" where
  "find_str d [] = (if d = [] then Some 0 else None)"
| "find_str d (x # xs) =
     (if take (length d) (x # xs) = d then Some 0 else map_option Suc (find_str d xs))"

definition strstr :: "char list \<Rightarrow> nat \<Rightarrow> string \<Rightarrow> fault + nat option" where
  "strstr mem p d =
     (case c_str mem p of
        Inl e \<Rightarrow> Inl e
      | Inr s \<Rightarrow> Inr (map_option (\<lambda>i. p + i) (find_str d s)))"

text \<open>
  \<^verbatim>\<open>for (const char* d = _Delim; *d; d++) *c++ = '\0';\<close> returns the buffer and the
  final \<open>c\<close>.
\<close>

fun zero_delim :: "string \<Rightarrow> char list \<Rightarrow> nat \<Rightarrow> char list \<times> nat" where
  "zero_delim [] mem c = (mem, c)"
| "zero_delim (d # ds) mem c = zero_delim ds (mem[c := NUL]) (Suc c)"

text \<open>
  \<^verbatim>\<open>strtok_c(_Str, _Delim, _Context)\<close>. The result is the buffer, the returned token
  (\<open>None\<close> for NULL) and the value left in \<^verbatim>\<open>*_Context\<close>.
\<close>

definition strtok_c ::
  "nat option \<Rightarrow> string \<Rightarrow> char list \<Rightarrow> nat \<Rightarrow> fault + (char list \<times> nat option \<times> nat)" where
  "strtok_c Str Delim mem Context =
     (let ctx = (case Str of Some s \<Rightarrow> s | None \<Rightarrow> Context) in
      case strstr mem ctx Delim of
        Inl e \<Rightarrow> Inl e
      | Inr None \<Rightarrow> Inr (mem, None, ctx)
      | Inr (Some c) \<Rightarrow>
          (case zero_delim Delim mem c of (mem', c') \<Rightarrow> Inr (mem', Some ctx, c')))"

text \<open>
  The loop of \<^verbatim>\<open>csvtok\<close> over a quoted field. Its condition \<^verbatim>\<open>c != '\0'\<close> compares
  the pointer, not the byte, so it holds at every step and the loop ends only at the
  \<^verbatim>\<open>break\<close>: a closing quote that no second quote follows. \<open>c\<close> is the read position
  and \<open>t\<close> the write position; the result is the buffer and the new \<^verbatim>\<open>*ctx\<close>.
\<close>

function csv_scan :: "char list \<Rightarrow> nat \<Rightarrow> nat \<Rightarrow> fault + (char list \<times> nat)" where
  "csv_scan mem c t =
     (if length mem \<le> c then Inl BufferOverrun
      else
        let mem1 = mem[t := mem ! c]; t1 = Suc t in
        if mem1 ! c = DQ then
          (if length mem1 \<le> Suc c then Inl BufferOverrun
           else if mem1 ! Suc c = DQ then csv_scan mem1 (Suc (Suc c)) t1
           else Inr (mem1[t1 - 1 := NUL], Suc c))
        else csv_scan mem1 (Suc c) t1)"
  by pat_completeness auto
termination
  by (relation "measure (\<lambda>(mem, c, t). length mem - c)") auto

definition csvtok :: "char list \<Rightarrow> nat \<Rightarrow> fault + (char list \<times> nat option \<times> nat)" where
  "csvtok mem ctx =
     (if length mem \<le> ctx then Inl BufferOverrun
      else if mem ! ctx \<noteq> DQ then strtok_c None '','' mem ctx
      else
        case csv_scan mem (Suc ctx) ctx of
          Inl e \<Rightarrow> Inl e
        | Inr (mem1, ctx1) \<Rightarrow>
            (case strtok_c None '','' mem1 ctx1 of
               Inl e \<Rightarrow> Inl e
             | Inr (mem2, _, ctx2) \<Rightarrow> Inr (mem2, Some ctx, ctx2)))"

declare csv_scan.simps [simp del]

subsection \<open>Lengths and positions: what the termination of the reading loops rests on\<close>

lemma zero_delim_length: "length (fst (zero_delim d mem c)) = length mem"
  by (induction d arbitrary: mem c) auto

lemma zero_delim_pos: "snd (zero_delim d mem c) = c + length d"
  by (induction d arbitrary: mem c) auto

lemma find_str_bound: "find_str d s = Some i \<Longrightarrow> i + length d \<le> length s"
proof (induction s arbitrary: i)
  case Nil
  then show ?case by (simp split: if_splits)
next
  case (Cons x xs)
  show ?case
  proof (cases "take (length d) (x # xs) = d")
    case True
    then have "length (take (length d) (x # xs)) = length d"
      by simp
    then have "length d \<le> length (x # xs)"
      by simp
    with True Cons.prems show ?thesis by simp
  next
    case False
    with Cons.prems obtain j where "find_str d xs = Some j" and "i = Suc j"
      by auto
    with Cons.IH [of j] show ?thesis by simp
  qed
qed

lemma takeWhile_shorter: "x \<in> set xs \<Longrightarrow> \<not> P x \<Longrightarrow> length (takeWhile P xs) < length xs"
  by (induction xs) auto

lemma c_str_bound: "c_str mem p = Inr s \<Longrightarrow> p + length s < length mem"
proof -
  assume a: "c_str mem p = Inr s"
  then have nul: "NUL \<in> set (drop p mem)" and s: "s = takeWhile (\<lambda>c. c \<noteq> NUL) (drop p mem)"
    by (simp_all add: c_str_def split: if_splits)
  from nul have "length (takeWhile (\<lambda>c. c \<noteq> NUL) (drop p mem)) < length (drop p mem)"
    by (rule takeWhile_shorter) simp
  with s show ?thesis by simp
qed

lemma strtok_c_cases:
  "strtok_c Str Delim mem Context =
     (case strstr mem (case Str of Some s \<Rightarrow> s | None \<Rightarrow> Context) Delim of
        Inl e \<Rightarrow> Inl e
      | Inr None \<Rightarrow> Inr (mem, None, case Str of Some s \<Rightarrow> s | None \<Rightarrow> Context)
      | Inr (Some c) \<Rightarrow>
          Inr (fst (zero_delim Delim mem c), Some (case Str of Some s \<Rightarrow> s | None \<Rightarrow> Context),
               c + length Delim))"
proof (cases "strstr mem (case Str of Some s \<Rightarrow> s | None \<Rightarrow> Context) Delim")
  case (Inl e)
  then show ?thesis by (simp add: strtok_c_def)
next
  case (Inr r)
  show ?thesis
  proof (cases r)
    case None
    with Inr show ?thesis by (simp add: strtok_c_def)
  next
    case (Some c)
    obtain m' c' where z: "zero_delim Delim mem c = (m', c')"
      by (cases "zero_delim Delim mem c")
    with zero_delim_pos [of Delim mem c] have "c' = c + length Delim"
      by simp
    with Inr Some z show ?thesis by (simp add: strtok_c_def)
  qed
qed

lemma strtok_c_token:
  assumes "strtok_c Str Delim mem Context = Inr (mem', Some tk, ctx')"
  shows "length mem' = length mem"
    and "tk = (case Str of Some s \<Rightarrow> s | None \<Rightarrow> Context)"
    and "tk + length Delim \<le> ctx'"
    and "ctx' < length mem"
proof -
  let ?ctx = "case Str of Some s \<Rightarrow> s | None \<Rightarrow> Context"
  from assms obtain c where st: "strstr mem ?ctx Delim = Inr (Some c)"
    and m: "mem' = fst (zero_delim Delim mem c)" and p: "ctx' = c + length Delim" and tk: "tk = ?ctx"
    by (simp add: strtok_c_cases split: sum.splits option.splits)
  from st obtain s i where cs: "c_str mem ?ctx = Inr s" and f: "find_str Delim s = Some i"
    and c: "c = ?ctx + i"
    by (auto simp: strstr_def split: sum.splits)
  show "length mem' = length mem" using m by (simp add: zero_delim_length)
  show "tk = ?ctx" by (rule tk)
  show "tk + length Delim \<le> ctx'" using p c tk by simp
  show "ctx' < length mem"
    using p c find_str_bound [OF f] c_str_bound [OF cs] by simp
qed

lemma strtok_c_none:
  "strtok_c Str Delim mem Context = Inr (mem', None, ctx') \<Longrightarrow>
     mem' = mem \<and> ctx' = (case Str of Some s \<Rightarrow> s | None \<Rightarrow> Context)"
  by (simp add: strtok_c_cases split: sum.splits option.splits)

lemma strtok_c_length:
  "strtok_c Str Delim mem Context = Inr (mem', tk, ctx') \<Longrightarrow> length mem' = length mem"
  by (cases tk) (auto dest: strtok_c_none strtok_c_token(1))

lemma csv_scan_result:
  "csv_scan mem c t = Inr (mem', c') \<Longrightarrow> length mem' = length mem \<and> c < c' \<and> c' < length mem"
proof (induction mem c t rule: csv_scan.induct)
  case (1 mem c t)
  note step = csv_scan.simps [of mem c t]
  let ?m = "mem[t := mem ! c]"
  show ?case
  proof (cases "length mem \<le> c")
    case True
    with "1.prems" step show ?thesis by simp
  next
    case False
    show ?thesis
    proof (cases "?m ! c = DQ")
      case q: True
      show ?thesis
      proof (cases "length ?m \<le> Suc c")
        case True
        with False q "1.prems" step show ?thesis by (simp add: Let_def)
      next
        case inb: False
        show ?thesis
        proof (cases "?m ! Suc c = DQ")
          case True
          with False q inb "1.prems" step
          have "csv_scan ?m (Suc (Suc c)) (Suc t) = Inr (mem', c')"
            by (simp add: Let_def)
          with "1.IH"(1) [OF False refl refl q inb True] show ?thesis by simp
        next
          case False
          with \<open>\<not> length mem \<le> c\<close> q inb "1.prems" step show ?thesis
            by (auto simp: Let_def)
        qed
      qed
    next
      case nq: False
      with False "1.prems" step have "csv_scan ?m (Suc c) (Suc t) = Inr (mem', c')"
        by (simp add: Let_def)
      with "1.IH"(2) [OF False refl refl nq] show ?thesis by simp
    qed
  qed
qed

lemma csvtok_token:
  assumes "csvtok mem ctx = Inr (mem', Some tk, ctx')"
  shows "length mem' = length mem" and "ctx < ctx'" and "ctx' < length mem"
proof -
  have "length mem' = length mem \<and> ctx < ctx' \<and> ctx' < length mem"
  proof (cases "mem ! ctx \<noteq> DQ")
    case True
    with assms have "strtok_c None '','' mem ctx = Inr (mem', Some tk, ctx')"
      by (simp add: csvtok_def split: if_splits)
    from strtok_c_token [OF this] show ?thesis by simp
  next
    case False
    with assms obtain mem1 ctx1 r where sc: "csv_scan mem (Suc ctx) ctx = Inr (mem1, ctx1)"
      and st: "strtok_c None '','' mem1 ctx1 = Inr (mem', r, ctx')"
      by (auto simp: csvtok_def split: if_splits sum.splits prod.splits)
    from csv_scan_result [OF sc] have l1: "length mem1 = length mem" and c1: "Suc ctx < ctx1"
      and b1: "ctx1 < length mem" by simp_all
    show ?thesis
    proof (cases r)
      case None
      with st strtok_c_none [of None "'',''" mem1 ctx1 mem' ctx'] have "mem' = mem1" and "ctx' = ctx1"
        by simp_all
      with l1 c1 b1 show ?thesis by simp
    next
      case (Some a)
      with st strtok_c_token [of None "'',''" mem1 ctx1 mem' a ctx'] l1 c1 show ?thesis
        by simp
    qed
  qed
  then show "length mem' = length mem" and "ctx < ctx'" and "ctx' < length mem"
    by simp_all
qed

lemma csvtok_length:
  assumes "csvtok mem ctx = Inr (mem', tk, ctx')"
  shows "length mem' = length mem"
proof (cases "mem ! ctx \<noteq> DQ")
  case True
  with assms have "strtok_c None '','' mem ctx = Inr (mem', tk, ctx')"
    by (simp add: csvtok_def split: if_splits)
  then show ?thesis by (rule strtok_c_length)
next
  case False
  with assms obtain mem1 ctx1 r where sc: "csv_scan mem (Suc ctx) ctx = Inr (mem1, ctx1)"
    and st: "strtok_c None '','' mem1 ctx1 = Inr (mem', r, ctx')"
    by (auto simp: csvtok_def split: if_splits sum.splits prod.splits)
  from csv_scan_result [OF sc] strtok_c_length [OF st] show ?thesis by simp
qed

lemma csvtok_measure:
  "csvtok mem ctx = Inr (mem', Some tk, ctx') \<Longrightarrow> length mem' - ctx' < length mem - ctx"
  using csvtok_token [of mem ctx mem' tk ctx'] by simp

section \<open>Reading a file into the table\<close>

text \<open>
  The field loop of \<^verbatim>\<open>ReadFile\<close>:
  \<^verbatim>\<open>tk = csvtok(&nt); for (; tk; ) { row.push_back(tk); tk = csvtok(&nt); } row.push_back(nt);\<close>
  \<open>row\<close> is the row being filled (a reference to the last element of \<^verbatim>\<open>cells\<close>).
\<close>

function read_fields ::
  "char list \<Rightarrow> nat \<Rightarrow> cptr list \<Rightarrow> fault + (char list \<times> cptr list)" where
  "read_fields mem nt row =
     (case csvtok mem nt of
        Inl e \<Rightarrow> Inl e
      | Inr (mem', None, nt') \<Rightarrow> Inr (mem', row @ [BufPtr nt'])
      | Inr (mem', Some tk, nt') \<Rightarrow> read_fields mem' nt' (row @ [BufPtr tk]))"
  by pat_completeness auto
termination
  by (relation "measure (\<lambda>(mem, nt, row). length mem - nt)") (auto simp: csvtok_measure)

declare read_fields.simps [simp del]

lemma read_fields_length:
  "read_fields mem nt row = Inr (mem', row') \<Longrightarrow> length mem' = length mem"
proof (induction mem nt row rule: read_fields.induct)
  case (1 mem nt row)
  note step = read_fields.simps [of mem nt row]
  show ?case
  proof (cases "csvtok mem nt")
    case (Inl e)
    with "1.prems" step show ?thesis by simp
  next
    case (Inr r)
    obtain m1 tko nt' where r: "r = (m1, tko, nt')" by (cases r)
    from Inr r have l: "length m1 = length mem" by (simp add: csvtok_length)
    show ?thesis
    proof (cases tko)
      case None
      with Inr r "1.prems" step l show ?thesis by simp
    next
      case (Some tk)
      with Inr r "1.prems" step have "read_fields m1 nt' (row @ [BufPtr tk]) = Inr (mem', row')"
        by simp
      with "1.IH" [OF Inr r [symmetric] refl Some] l show ?thesis by simp
    qed
  qed
qed

lemma strtok_c_measure:
  "strtok_c None CRLF mem1 lctx = Inr (mem2, Some tok', lctx') \<Longrightarrow> length mem1 = length mem \<Longrightarrow>
     length mem2 - lctx' < length mem - lctx"
  using strtok_c_token [of None CRLF mem1 lctx mem2 tok' lctx'] by (simp add: CRLF_def)

text \<open>\<^verbatim>\<open>std::vector::resize(n)\<close> on the vector of rows: cut, or fill with empty rows.\<close>

definition resize :: "'a list list \<Rightarrow> nat \<Rightarrow> 'a list list" where
  "resize xs n = take n xs @ replicate (n - length xs) []"

text \<open>
  The outcome of the line loop of \<^verbatim>\<open>ReadFile\<close>: a fault, the field-count error of
  row \<open>i\<close> (with the counts found and expected), or the buffer and the rows read.
\<close>

datatype rows_result =
    RowsFault fault
  | ShapeMismatch nat nat nat
  | RowsDone "char list" "cptr list list"

text \<open>
  \<^verbatim>\<open>for (int i = 0; tok; i++) { ... tok = strtok_c(NULL, "\r\n", ...); }\<close>,
  entered with a token \<open>tok\<close>; \<open>lctx\<close> is the cursor of the line splitter, the third
  argument of its calls.
\<close>

function read_rows ::
  "nat \<Rightarrow> nat \<Rightarrow> nat \<Rightarrow> char list \<Rightarrow> cptr list list \<Rightarrow> rows_result" where
  "read_rows i tok lctx mem cells =
     (let cells1 = resize cells (Suc i) in
      case read_fields mem tok (last cells1) of
        Inl e \<Rightarrow> RowsFault e
      | Inr (mem1, row) \<Rightarrow>
          let cells2 = cells1[length cells1 - 1 := row] in
          if length row \<noteq> length (cells2 ! 0)
          then ShapeMismatch i (length row) (length (cells2 ! 0))
          else
            (case strtok_c None CRLF mem1 lctx of
               Inl e \<Rightarrow> RowsFault e
             | Inr (mem2, None, lctx') \<Rightarrow> RowsDone mem2 cells2
             | Inr (mem2, Some tok', lctx') \<Rightarrow> read_rows (Suc i) tok' lctx' mem2 cells2))"
  by pat_completeness auto
termination
  by (relation "measure (\<lambda>(i, tok, lctx, mem, cells). length mem - lctx)")
    (auto simp: strtok_c_measure read_fields_length)

declare read_rows.simps [simp del]

section \<open>The table\<close>

record CSVStaticTable =
  buf :: "char list option"
  cells :: "cptr list list"

text \<open>The table as the constructors leave it: no buffer, no rows.\<close>

definition empty_table :: CSVStaticTable where
  "empty_table = \<lparr>buf = None, cells = []\<rparr>"

text \<open>What the console functions are called with, in the order of the calls.\<close>

datatype msg =
    LoadingCSV string
  | UnableToOpenForReading string
  | IncorrectFieldCount nat nat nat
  | PrunedRows nat
  | PrunedColumns nat
  | UnnamedFieldValue nat
  | FileAlreadyExists string
  | UnableToOpenForWriting string

datatype log_entry = Con_Printf_v msg | Con_Warning msg | Con_Error msg

text \<open>
  Modelled from the spec: the load flags are declared in \<^verbatim>\<open>csv.h\<close>, which is not among
  the sources. The spec calls them a composable bitset, so each flag is a bit of its own.
\<close>

definition CSV_ST_PRUNE_EMPTY :: "32 word" where
  "CSV_ST_PRUNE_EMPTY = 1"

definition CSV_ST_PRUNE_COMMENTS :: "32 word" where
  "CSV_ST_PRUNE_COMMENTS = 2"

definition CSV_ST_HEADERLESS_SINGLEFIELD :: "32 word" where
  "CSV_ST_HEADERLESS_SINGLEFIELD = 4"

subsection \<open>Vectors\<close>

text \<open>
  \<^verbatim>\<open>v[i]\<close> and \<^verbatim>\<open>v.erase(v.begin() + i)\<close> on a \<^verbatim>\<open>std::vector\<close>, for an \<^verbatim>\<open>int\<close>
  index: defined when \<open>0 \<le> i < size\<close>, a fault otherwise.
\<close>

definition vec_at :: "'a list \<Rightarrow> int \<Rightarrow> fault + 'a" where
  "vec_at v i = (if 0 \<le> i \<and> i < int (length v) then Inr (v ! nat i) else Inl OutOfRange)"

definition vec_erase :: "'a list \<Rightarrow> int \<Rightarrow> fault + 'a list" where
  "vec_erase v i =
     (if 0 \<le> i \<and> i < int (length v) then Inr (take (nat i) v @ drop (Suc (nat i)) v)
      else Inl OutOfRange)"

text \<open>\<^verbatim>\<open>cells[r][c]\<close> and \<^verbatim>\<open>cells[r].erase(cells[r].begin() + c)\<close>.\<close>

definition cell_at :: "cptr list list \<Rightarrow> int \<Rightarrow> int \<Rightarrow> fault + cptr" where
  "cell_at cs r c = (case vec_at cs r of Inl e \<Rightarrow> Inl e | Inr row \<Rightarrow> vec_at row c)"

definition erase_in_row :: "cptr list list \<Rightarrow> int \<Rightarrow> int \<Rightarrow> fault + cptr list list" where
  "erase_in_row cs r c =
     (case vec_at cs r of
        Inl e \<Rightarrow> Inl e
      | Inr row \<Rightarrow>
          (case vec_erase row c of
             Inl e \<Rightarrow> Inl e
           | Inr row' \<Rightarrow> Inr (cs[nat r := row'])))"

subsection \<open>Accessors\<close>

text \<open>
  Modelled from the spec: \<^verbatim>\<open>RowCount\<close> and \<^verbatim>\<open>FieldCount\<close> are defined in \<^verbatim>\<open>csv.h\<close>,
  which is not among the sources. The spec has them derived, not stored, with row 0 the
  header: the field count is the size of row 0 and the row count is the number of rows
  after the header, as \<^verbatim>\<open>CellValue\<close> uses them (it asserts
  \<^verbatim>\<open>row_index < RowCount()\<close> and reads \<^verbatim>\<open>cells[row_index + 1]\<close>).
\<close>

definition RowCount :: "CSVStaticTable \<Rightarrow> int" where
  "RowCount t = int (length (cells t)) - 1"

definition FieldCount :: "CSVStaticTable \<Rightarrow> fault + nat" where
  "FieldCount t = (case cells t of [] \<Rightarrow> Inl OutOfRange | header # _ \<Rightarrow> Inr (length header))"

text \<open>The \<^verbatim>\<open>_ASSERT\<close>s of the two accessors are debug checks and do not change the result.\<close>

definition FieldName :: "CSVStaticTable \<Rightarrow> int \<Rightarrow> fault + cptr" where
  "FieldName t field_index = cell_at (cells t) 0 field_index"

definition CellValue :: "CSVStaticTable \<Rightarrow> int \<Rightarrow> int \<Rightarrow> fault + cptr" where
  "CellValue t row_index field_index = cell_at (cells t) (row_index + 1) field_index"

text \<open>\<^verbatim>\<open>*p\<close> and \<^verbatim>\<open>strlen(p)\<close> for a stored pointer.\<close>

definition first_char :: "CSVStaticTable \<Rightarrow> cptr \<Rightarrow> fault + char" where
  "first_char t p =
     (case str_of (buf t) p of
        Inl e \<Rightarrow> Inl e
      | Inr s \<Rightarrow> Inr (case s of [] \<Rightarrow> NUL | x # _ \<Rightarrow> x))"

definition strlen :: "CSVStaticTable \<Rightarrow> cptr \<Rightarrow> fault + nat" where
  "strlen t p = (case str_of (buf t) p of Inl e \<Rightarrow> Inl e | Inr s \<Rightarrow> Inr (length s))"

text \<open>The strings of every cell, row by row: what a caller reads through the pointers.\<close>

fun all_ok :: "(fault + 'a) list \<Rightarrow> fault + 'a list" where
  "all_ok [] = Inr []"
| "all_ok (x # xs) =
     (case x of
        Inl e \<Rightarrow> Inl e
      | Inr y \<Rightarrow> (case all_ok xs of Inl e \<Rightarrow> Inl e | Inr ys \<Rightarrow> Inr (y # ys)))"

definition contents :: "CSVStaticTable \<Rightarrow> fault + string list list" where
  "contents t = all_ok (map (\<lambda>row. all_ok (map (str_of (buf t)) row)) (cells t))"

section \<open>Pruning\<close>

text \<open>
  The inner loop of \<^verbatim>\<open>PruneRows\<close>:
  \<^verbatim>\<open>for (int c = 0; c < FieldCount(); c++) if (strlen(cells[r+1][c])) { content = true; r++; break; }\<close>
  The result is \<open>content\<close>; the caller advances \<open>r\<close> when it is true.
\<close>

function row_content :: "CSVStaticTable \<Rightarrow> nat \<Rightarrow> nat \<Rightarrow> fault + bool" where
  "row_content t r c =
     (case FieldCount t of
        Inl e \<Rightarrow> Inl e
      | Inr n \<Rightarrow>
          if c < n then
            (case cell_at (cells t) (int r + 1) (int c) of
               Inl e \<Rightarrow> Inl e
             | Inr p \<Rightarrow>
                 (case strlen t p of
                    Inl e \<Rightarrow> Inl e
                  | Inr len \<Rightarrow> if len \<noteq> 0 then Inr True else row_content t r (Suc c)))
          else Inr False)"
  by pat_completeness auto
termination
  by (relation "measure (\<lambda>(t, r, c). length (hd (cells t)) - c)")
    (auto simp: FieldCount_def split: list.splits)

declare row_content.simps [simp del]

text \<open>
  One pass of the body of the loop of \<^verbatim>\<open>PruneRows\<close>, in two halves as the source has
  them: the comment test, then (whatever the first did) the empty test at the same \<open>r\<close>.
  Each returns the table, \<open>r\<close> and \<open>pruned_count\<close>.
\<close>

definition prune_comment_row ::
  "32 word \<Rightarrow> CSVStaticTable \<Rightarrow> nat \<Rightarrow> nat \<Rightarrow> fault + (CSVStaticTable \<times> nat \<times> nat)" where
  "prune_comment_row bits t r pruned_count =
     (if bits AND CSV_ST_PRUNE_COMMENTS \<noteq> 0 then
        (case cell_at (cells t) (int r + 1) 0 of
           Inl e \<Rightarrow> Inl e
         | Inr p \<Rightarrow>
             (case first_char t p of
                Inl e \<Rightarrow> Inl e
              | Inr ch \<Rightarrow>
                  if ch = HASH then
                    (case vec_erase (cells t) (int r + 1) of
                       Inl e \<Rightarrow> Inl e
                     | Inr cs \<Rightarrow> Inr (t\<lparr>cells := cs\<rparr>, r, Suc pruned_count))
                  else Inr (t, r, pruned_count)))
      else Inr (t, r, pruned_count))"

definition prune_empty_row ::
  "32 word \<Rightarrow> CSVStaticTable \<Rightarrow> nat \<Rightarrow> nat \<Rightarrow> fault + (CSVStaticTable \<times> nat \<times> nat)" where
  "prune_empty_row bits t r pruned_count =
     (if bits AND CSV_ST_PRUNE_EMPTY \<noteq> 0 then
        (case row_content t r 0 of
           Inl e \<Rightarrow> Inl e
         | Inr content \<Rightarrow>
             if content then Inr (t, Suc r, pruned_count)
             else
               (case vec_erase (cells t) (int r + 1) of
                  Inl e \<Rightarrow> Inl e
                | Inr cs \<Rightarrow> Inr (t\<lparr>cells := cs\<rparr>, r, Suc pruned_count)))
      else Inr (t, r, pruned_count))"

definition prune_rows_body ::
  "32 word \<Rightarrow> CSVStaticTable \<Rightarrow> nat \<Rightarrow> nat \<Rightarrow> fault + (CSVStaticTable \<times> nat \<times> nat)" where
  "prune_rows_body bits t r pruned_count =
     (case prune_comment_row bits t r pruned_count of
        Inl e \<Rightarrow> Inl e
      | Inr (t1, r1, pruned1) \<Rightarrow> prune_empty_row bits t1 r1 pruned1)"

text \<open>
  \<^verbatim>\<open>for (int r = 0; r < this->RowCount();) { ... }\<close>. Nothing bounds the number of
  passes, so the loop is a partial function: \<open>None\<close> stands for a loop that never ends.
\<close>

partial_function (option) prune_rows_loop ::
  "32 word \<Rightarrow> CSVStaticTable \<Rightarrow> nat \<Rightarrow> nat \<Rightarrow> (fault + (CSVStaticTable \<times> nat)) option" where
  "prune_rows_loop bits t r pruned_count =
     (if int r < RowCount t then
        (case prune_rows_body bits t r pruned_count of
           Inl e \<Rightarrow> Some (Inl e)
         | Inr (t', r', pruned') \<Rightarrow> prune_rows_loop bits t' r' pruned')
      else Some (Inr (t, pruned_count)))"

declare prune_rows_loop.simps [code]

text \<open>
  \<^verbatim>\<open>PruneRows(bits)\<close>, on the table and the console log: the returned count, the table
  and the log.
\<close>

definition PruneRows ::
  "32 word \<Rightarrow> CSVStaticTable \<Rightarrow> log_entry list \<Rightarrow>
     (fault + (int \<times> CSVStaticTable \<times> log_entry list)) option" where
  "PruneRows bits t log =
     (if bits AND (CSV_ST_PRUNE_EMPTY OR CSV_ST_PRUNE_COMMENTS) = 0 then Some (Inr (0, t, log))
      else
        (case prune_rows_loop bits t 0 0 of
           None \<Rightarrow> None
         | Some (Inl e) \<Rightarrow> Some (Inl e)
         | Some (Inr (t', pruned_count)) \<Rightarrow>
             Some (Inr (int pruned_count, t',
                        if pruned_count \<noteq> 0 then log @ [Con_Printf_v (PrunedRows pruned_count)]
                        else log))))"

text \<open>\<^verbatim>\<open>DeleteRow(row_index)\<close>: \<^verbatim>\<open>cells.erase(cells.begin() + 1 + row_index)\<close>.\<close>

definition DeleteRow :: "CSVStaticTable \<Rightarrow> int \<Rightarrow> fault + CSVStaticTable" where
  "DeleteRow t row_index =
     (case vec_erase (cells t) (1 + row_index) of
        Inl e \<Rightarrow> Inl e
      | Inr cs \<Rightarrow> Inr (t\<lparr>cells := cs\<rparr>))"

lemma erase_in_row_length: "erase_in_row cs r c = Inr cs' \<Longrightarrow> length cs' = length cs"
  by (auto simp: erase_in_row_def split: sum.splits)

text \<open>
  The inner loop of \<^verbatim>\<open>PruneColumns\<close> for the column \<open>c\<close>:
  \<^verbatim>\<open>for (int r = 1; r < this->RowCount(); r++) { if (*this->CellValue(r, c) != '\0') Con_Warning(..., actual_column); this->cells[r].erase(this->cells[r].begin() + c); }\<close>
\<close>

function prune_column_rows ::
  "CSVStaticTable \<Rightarrow> log_entry list \<Rightarrow> nat \<Rightarrow> nat \<Rightarrow> nat \<Rightarrow>
     fault + (CSVStaticTable \<times> log_entry list)" where
  "prune_column_rows t log c actual_column r =
     (if int r < RowCount t then
        (case CellValue t (int r) (int c) of
           Inl e \<Rightarrow> Inl e
         | Inr p \<Rightarrow>
             (case first_char t p of
                Inl e \<Rightarrow> Inl e
              | Inr ch \<Rightarrow>
                  let log1 = (if ch \<noteq> NUL
                              then log @ [Con_Warning (UnnamedFieldValue actual_column)]
                              else log) in
                  (case erase_in_row (cells t) (int r) (int c) of
                     Inl e \<Rightarrow> Inl e
                   | Inr cs \<Rightarrow> prune_column_rows (t\<lparr>cells := cs\<rparr>) log1 c actual_column (Suc r))))
      else Inr (t, log))"
  by pat_completeness auto

termination
  by (relation "measure (\<lambda>(t, log, c, actual_column, r). nat (RowCount t) - r)")
    (auto simp: RowCount_def erase_in_row_length)

declare prune_column_rows.simps [simp del]

lemma erase_in_row_header:
  assumes "erase_in_row cs (int r) c = Inr cs'" and "0 < r"
  shows "FieldCount (t\<lparr>cells := cs'\<rparr>) = FieldCount (t\<lparr>cells := cs\<rparr>)"
proof -
  from assms(1) obtain row' where cs': "cs' = cs[r := row']"
    by (auto simp: erase_in_row_def split: sum.splits)
  from assms(2) obtain k where r: "r = Suc k" by (cases r) auto
  show ?thesis by (cases cs) (simp_all add: cs' r FieldCount_def)
qed

lemma prune_column_rows_header:
  "prune_column_rows t log c actual_column r = Inr (t', log') \<Longrightarrow> 0 < r \<Longrightarrow>
     FieldCount t' = FieldCount t"
proof (induction t log c actual_column r rule: prune_column_rows.induct)
  case (1 t log c actual_column r)
  note step = prune_column_rows.simps [of t log c actual_column r]
  show ?case
  proof (cases "int r < RowCount t")
    case False
    with "1.prems" step show ?thesis by simp
  next
    case True
    with "1.prems"(1) step obtain p ch cs where p: "CellValue t (int r) (int c) = Inr p"
      and ch: "first_char t p = Inr ch"
      and cs: "erase_in_row (cells t) (int r) (int c) = Inr cs"
      and rec: "prune_column_rows (t\<lparr>cells := cs\<rparr>)
                  (if ch \<noteq> NUL then log @ [Con_Warning (UnnamedFieldValue actual_column)] else log)
                  c actual_column (Suc r) = Inr (t', log')"
      by (auto simp: Let_def split: sum.splits)
    from "1.IH" [OF True p ch refl cs rec] have "FieldCount t' = FieldCount (t\<lparr>cells := cs\<rparr>)"
      by simp
    also from erase_in_row_header [OF cs "1.prems"(2), of t] have "\<dots> = FieldCount t"
      by simp
    finally show ?thesis .
  qed
qed

lemma erase_header_field:
  assumes "erase_in_row cs 0 (int c) = Inr cs'" and "FieldCount (t\<lparr>cells := cs\<rparr>) = Inr n"
  shows "FieldCount (t\<lparr>cells := cs'\<rparr>) = Inr (n - 1)" and "c < n"
proof -
  from assms(2) obtain header rest where cs: "cs = header # rest" and n: "n = length header"
    by (auto simp: FieldCount_def split: list.splits)
  from assms(1) cs have c: "c < length header"
    and cs': "cs' = (take c header @ drop (Suc c) header) # rest"
    by (auto simp: erase_in_row_def vec_at_def vec_erase_def split: if_splits)
  show "FieldCount (t\<lparr>cells := cs'\<rparr>) = Inr (n - 1)"
    using c by (simp add: cs' n FieldCount_def min_def)
  show "c < n" using c n by simp
qed

lemma prune_columns_measure:
  assumes "FieldCount t = Inr n" and "prune_column_rows t log c actual_column 1 = Inr (t1, log1)"
    and "erase_in_row (cells t1) 0 (int c) = Inr cs"
  shows "FieldCount (t1\<lparr>cells := cs\<rparr>) = Inr (n - 1) \<and> c < n"
proof -
  from prune_column_rows_header [OF assms(2)] assms(1) have "FieldCount (t1\<lparr>cells := cells t1\<rparr>) = Inr n"
    by simp
  from erase_header_field [OF assms(3) this] show ?thesis by simp
qed

text \<open>
  The outer loop of \<^verbatim>\<open>PruneColumns\<close>:
  \<^verbatim>\<open>for (int c = 0, actual_column = 0; c < this->FieldCount(); actual_column++) { ... }\<close>
\<close>

function prune_columns_loop ::
  "CSVStaticTable \<Rightarrow> log_entry list \<Rightarrow> nat \<Rightarrow> nat \<Rightarrow> nat \<Rightarrow>
     fault + (CSVStaticTable \<times> log_entry list \<times> nat)" where
  "prune_columns_loop t log c actual_column pruned_count =
     (case FieldCount t of
        Inl e \<Rightarrow> Inl e
      | Inr n \<Rightarrow>
          if c < n then
            (case FieldName t (int c) of
               Inl e \<Rightarrow> Inl e
             | Inr p \<Rightarrow>
                 (case first_char t p of
                    Inl e \<Rightarrow> Inl e
                  | Inr ch \<Rightarrow>
                      if ch \<noteq> NUL
                      then prune_columns_loop t log (Suc c) (Suc actual_column) pruned_count
                      else
                        (case prune_column_rows t log c actual_column 1 of
                           Inl e \<Rightarrow> Inl e
                         | Inr (t1, log1) \<Rightarrow>
                             (case erase_in_row (cells t1) 0 (int c) of
                                Inl e \<Rightarrow> Inl e
                              | Inr cs \<Rightarrow>
                                  prune_columns_loop (t1\<lparr>cells := cs\<rparr>) log1 c
                                    (Suc actual_column) (Suc pruned_count)))))
          else Inr (t, log, pruned_count))"
  by pat_completeness auto

termination
proof (relation "measure (\<lambda>(t, log, c, actual_column, pruned_count).
                   (case FieldCount t of Inl e \<Rightarrow> 0 | Inr n \<Rightarrow> n - c))", goal_cases)
  case 1
  show ?case by simp
next
  case 2
  then show ?case by simp
next
  case (3 t log c actual_column pruned_count n p ch x2 t1 log1 cs)
  then have "prune_column_rows t log c actual_column 1 = Inr (t1, log1)"
    by simp
  from prune_columns_measure [OF "3"(1) this "3"(8)] "3"(1) show ?case
    by auto
qed

declare prune_columns_loop.simps [simp del]

text \<open>\<^verbatim>\<open>PruneColumns()\<close>: the returned count, the table and the log.\<close>

definition PruneColumns ::
  "CSVStaticTable \<Rightarrow> log_entry list \<Rightarrow> fault + (int \<times> CSVStaticTable \<times> log_entry list)" where
  "PruneColumns t log =
     (case prune_columns_loop t log 0 0 0 of
        Inl e \<Rightarrow> Inl e
      | Inr (t', log', pruned_count) \<Rightarrow>
          Inr (int pruned_count, t',
               if pruned_count \<noteq> 0 then log' @ [Con_Printf_v (PrunedColumns pruned_count)]
               else log'))"

section \<open>ReadFile\<close>

text \<open>
  \<^verbatim>\<open>char* context = buf; char* tok = strtok_c(buf, "\r\n", &context);\<close> and the line
  loop, on the buffer (which starts at index 0) and the rows the table already has.
\<close>

definition load_rows :: "char list \<Rightarrow> cptr list list \<Rightarrow> rows_result" where
  "load_rows mem cs =
     (case strtok_c (Some 0) CRLF mem 0 of
        Inl e \<Rightarrow> RowsFault e
      | Inr (mem1, None, lctx) \<Rightarrow> RowsDone mem1 cs
      | Inr (mem1, Some tok, lctx) \<Rightarrow> read_rows 0 tok lctx mem1 cs)"

text \<open>
  The end of \<^verbatim>\<open>ReadFile\<close>, once every line is read: the pruning the flags ask for and
  the header of the headerless mode.
\<close>

definition post_load ::
  "32 word \<Rightarrow> CSVStaticTable \<Rightarrow> log_entry list \<Rightarrow>
     (fault + (int \<times> CSVStaticTable \<times> log_entry list)) option" where
  "post_load loadflags t log =
     (case (if loadflags AND CSV_ST_PRUNE_EMPTY \<noteq> 0 then PruneColumns t log
            else Inr (0, t, log)) of
        Inl e \<Rightarrow> Some (Inl e)
      | Inr (n, t1, log1) \<Rightarrow>
          (case PruneRows loadflags t1 log1 of
             None \<Rightarrow> None
           | Some (Inl e) \<Rightarrow> Some (Inl e)
           | Some (Inr (m, t2, log2)) \<Rightarrow>
               Some (Inr (0,
                          if loadflags AND CSV_ST_HEADERLESS_SINGLEFIELD \<noteq> 0
                          then t2\<lparr>cells := [Literal ''name''] # cells t2\<rparr>
                          else t2,
                          log2))))"

text \<open>
  \<^verbatim>\<open>ReadFile(path, loadflags)\<close>. The file system is a map from paths to file contents;
  a path it does not have cannot be opened. Modelled from the spec: \<^verbatim>\<open>FS_FileSize\<close>
  (\<^verbatim>\<open>fs.h\<close>, not among the sources) is the file-size query, the number of bytes of the
  file, so \<^verbatim>\<open>fread\<close> fills the first \<open>size\<close> bytes of the zeroed buffer of
  \<open>size + 1\<close> and returns \<open>size\<close>. The message of \<^verbatim>\<open>Con_Printf_v\<close> is logged with
  the path as passed (the source passes it through \<^verbatim>\<open>FS_GetFilenameSubString\<close>).

  \<^verbatim>\<open>this->buf = new char[size + 1]\<close> comes first and does not delete the buffer held so
  far: the rows the table already has keep pointing into that buffer (\<open>t0\<close>), on every
  path through the function.

  The result is the returned code, the table and the log; \<open>None\<close> when \<^verbatim>\<open>PruneRows\<close>
  never returns.
\<close>

definition ReadFile ::
  "(string \<rightharpoonup> string) \<Rightarrow> CSVStaticTable \<Rightarrow> string \<Rightarrow> 32 word \<Rightarrow>
     (fault + (int \<times> CSVStaticTable \<times> log_entry list)) option" where
  "ReadFile fs t path loadflags =
     (let log = [Con_Printf_v (LoadingCSV path)];
          t0 = t\<lparr>cells := map (map (detach (buf t))) (cells t)\<rparr> in
      case fs path of
        None \<Rightarrow>
          Some (Inr (1, t0\<lparr>buf := None\<rparr>, log @ [Con_Error (UnableToOpenForReading path)]))
      | Some data \<Rightarrow>
          let mem = data @ [NUL]; read = length data in
          if read \<le> 0 then Some (Inr (3, t0\<lparr>buf := Some mem\<rparr>, log))
          else
            (case load_rows mem (cells t0) of
               RowsFault e \<Rightarrow> Some (Inl e)
             | ShapeMismatch i found expected \<Rightarrow>
                 Some (Inr (2, t0\<lparr>buf := None, cells := []\<rparr>,
                            log @ [Con_Error (IncorrectFieldCount i found expected)]))
             | RowsDone mem' cs \<Rightarrow> post_load loadflags (t0\<lparr>buf := Some mem', cells := cs\<rparr>) log))"

section \<open>WriteFile\<close>

text \<open>The \<^verbatim>\<open>"%d"\<close> of \<^verbatim>\<open>fprintf\<close> for a row number.\<close>

fun decimal :: "nat \<Rightarrow> string" where
  "decimal n =
     (if n < 10 then [char_of (48 + n)] else decimal (n div 10) @ [char_of (48 + n mod 10)])"

declare decimal.simps [simp del]

text \<open>
  One field as \<^verbatim>\<open>PrintTable\<close> writes it: \<^verbatim>\<open>strpbrk(str, ",\"") != NULL\<close> decides the
  quoting, and inside the quotes every quote is written twice.
\<close>

definition print_field :: "string \<Rightarrow> string" where
  "print_field str =
     (if list_ex (\<lambda>c. c = COMMA \<or> c = DQ) str
      then [DQ] @ concat (map (\<lambda>c. if c = DQ then [DQ, DQ] else [c]) str) @ [DQ]
      else str)"

text \<open>The fields of a row; a comma after each but the last (\<^verbatim>\<open>f + 1 < cells[r].size()\<close>).\<close>

fun print_fields :: "string list \<Rightarrow> string" where
  "print_fields [] = []"
| "print_fields (str # rest) =
     print_field str @ (if rest \<noteq> [] then [COMMA] else []) @ print_fields rest"

fun print_rows :: "bool \<Rightarrow> nat \<Rightarrow> string list list \<Rightarrow> string" where
  "print_rows include_debug_info r [] = []"
| "print_rows include_debug_info r (row # rows) =
     (if include_debug_info then ''['' @ decimal r @ '']: '' else [])
     @ print_fields row @ [CHR 0x0A]
     @ print_rows include_debug_info (Suc r) rows"

text \<open>\<^verbatim>\<open>PrintTable(h, include_debug_info)\<close>: the characters written to the stream.\<close>

definition PrintTable :: "CSVStaticTable \<Rightarrow> bool \<Rightarrow> fault + string" where
  "PrintTable t include_debug_info =
     (case contents t of
        Inl e \<Rightarrow> Inl e
      | Inr rows \<Rightarrow> Inr (print_rows include_debug_info 0 rows))"

text \<open>
  \<^verbatim>\<open>fopen_s(&f, path, "w")\<close> opens a text stream. The C runtime this code is written
  for (the one of \<^verbatim>\<open>fopen_s\<close> and \<^verbatim>\<open>_ASSERT\<close>) writes every \<^verbatim>\<open>'\n'\<close> of a text stream
  as the two bytes \<^verbatim>\<open>"\r\n"\<close>.
\<close>

definition text_mode :: "string \<Rightarrow> string" where
  "text_mode out = concat (map (\<lambda>c. if c = CHR 0x0A then CRLF else [c]) out)"

text \<open>
  \<^verbatim>\<open>WriteFile(path, overwrite)\<close>. Modelled from the spec: \<^verbatim>\<open>FS_FileExists\<close> (\<^verbatim>\<open>fs.h\<close>,
  not among the sources) is the file-existence query. \<open>writable\<close> says whether
  \<^verbatim>\<open>fopen_s\<close> can open the path for writing. The result is the returned code, the file
  system and the log.
\<close>

definition WriteFile ::
  "(string \<Rightarrow> bool) \<Rightarrow> (string \<rightharpoonup> string) \<Rightarrow> CSVStaticTable \<Rightarrow> string \<Rightarrow> bool \<Rightarrow>
     fault + (int \<times> (string \<rightharpoonup> string) \<times> log_entry list)" where
  "WriteFile writable fs t path overwrite =
     (if fs path \<noteq> None \<and> \<not> overwrite then Inr (1, fs, [Con_Error (FileAlreadyExists path)])
      else if \<not> writable path then Inr (2, fs, [Con_Error (UnableToOpenForWriting path)])
      else
        (case PrintTable t False of
           Inl e \<Rightarrow> Inl e
         | Inr out \<Rightarrow> Inr (0, fs(path \<mapsto> text_mode out), [])))"

section \<open>What a caller sees after a load\<close>

text \<open>
  The returned code of \<^verbatim>\<open>ReadFile\<close> together with the strings of all cells and
  the log, when the call returns and every stored pointer can be read.
\<close>

definition loaded ::
  "(fault + (int \<times> CSVStaticTable \<times> log_entry list)) option \<Rightarrow>
     (int \<times> string list list \<times> log_entry list) option" where
  "loaded res =
     (case res of
        Some (Inr (code, t, log)) \<Rightarrow>
          (case contents t of Inl e \<Rightarrow> None | Inr rows \<Rightarrow> Some (code, rows, log))
      | _ \<Rightarrow> None)"

section \<open>The field counts of the lines\<close>

text \<open>
  The field count each line of the input yields: the line splitter and the field loop of
  \<^verbatim>\<open>ReadFile\<close> run over the lines in order, with no comparison of the counts. The list
  ends with the last line, or before a line whose fields cannot be read.
\<close>

function line_counts_from :: "nat \<Rightarrow> nat \<Rightarrow> char list \<Rightarrow> nat list" where
  "line_counts_from tok lctx mem =
     (case read_fields mem tok [] of
        Inl e \<Rightarrow> []
      | Inr (mem1, row) \<Rightarrow>
          length row #
          (case strtok_c None CRLF mem1 lctx of
             Inl e \<Rightarrow> []
           | Inr (mem2, None, lctx') \<Rightarrow> []
           | Inr (mem2, Some tok', lctx') \<Rightarrow> line_counts_from tok' lctx' mem2))"
  by pat_completeness auto
termination
  by (relation "measure (\<lambda>(tok, lctx, mem). length mem - lctx)")
    (auto simp: strtok_c_measure read_fields_length)

declare line_counts_from.simps [simp del]

definition line_field_counts :: "string \<Rightarrow> nat list" where
  "line_field_counts data =
     (case strtok_c (Some 0) CRLF (data @ [NUL]) 0 of
        Inr (mem1, Some tok, lctx) \<Rightarrow> line_counts_from tok lctx mem1
      | _ \<Rightarrow> [])"

text \<open>
  The first count of a list that differs from \<open>expected\<close>, with its position; \<open>i\<close> is
  the position of the head of the list.
\<close>

fun first_mismatch_from :: "nat \<Rightarrow> nat \<Rightarrow> nat list \<Rightarrow> (nat \<times> nat) option" where
  "first_mismatch_from expected i [] = None"
| "first_mismatch_from expected i (found # rest) =
     (if found \<noteq> expected then Some (i, found) else first_mismatch_from expected (Suc i) rest)"

section \<open>Inputs of the examples\<close>

text \<open>\<^verbatim>\<open>h1,h2\r\na,"b,c"\r\n\<close>: the last field of the data line is quoted.\<close>

definition quoted_last_csv :: string where
  "quoted_last_csv = ''h1,h2'' @ CRLF @ ''a,'' @ [DQ] @ ''b,c'' @ [DQ] @ CRLF"

text \<open>\<^verbatim>\<open>"h1","h2"\r\n"a","b,c"\r\n\<close>: every line ends in a quoted field.\<close>

definition all_quoted_csv :: string where
  "all_quoted_csv =
     [DQ] @ ''h1'' @ [DQ] @ '','' @ [DQ] @ ''h2'' @ [DQ] @ CRLF @
     [DQ] @ ''a'' @ [DQ] @ '','' @ [DQ] @ ''b,c'' @ [DQ] @ CRLF"

text \<open>\<^verbatim>\<open>h1,h2\r\n"a,b",c\r\n"say ""hi""",d\r\n\<close>: a comma follows each quoted field.\<close>

definition quoted_inner_csv :: string where
  "quoted_inner_csv =
     ''h1,h2'' @ CRLF @
     [DQ] @ ''a,b'' @ [DQ] @ '',c'' @ CRLF @
     [DQ] @ ''say '' @ [DQ, DQ] @ ''hi'' @ [DQ, DQ, DQ] @ '',d'' @ CRLF"

text \<open>\<^verbatim>\<open>h1,h2\r\na,b"c\r\n\<close>: the last field holds a quote.\<close>

definition inner_quote_csv :: string where
  "inner_quote_csv = ''h1,h2'' @ CRLF @ ''a,b'' @ [DQ] @ ''c'' @ CRLF"

definition bare_lf_csv :: string where
  "bare_lf_csv = ''alpha'' @ [CHR 0x0A] @ ''beta'' @ [CHR 0x0A]"

definition crlf_csv :: string where
  "crlf_csv = ''alpha'' @ CRLF @ ''beta'' @ CRLF"

text \<open>
  A header and the three data rows \<open>[a, , ]\<close>, \<open>[ , , ]\<close>, \<open>[#comment, , ]\<close>: as a
  table in memory, and as the file \<^verbatim>\<open>x,y,z\r\na,,\r\n,,\r\n#comment,,\r\n\<close>.
\<close>

definition three_rows_csv :: string where
  "three_rows_csv = ''x,y,z'' @ CRLF @ ''a,,'' @ CRLF @ '',,'' @ CRLF @ ''#comment,,'' @ CRLF"

definition three_rows :: CSVStaticTable where
  "three_rows = \<lparr>buf = None, cells =
     [[Literal ''x'', Literal ''y'', Literal ''z''],
      [Literal ''a'', Literal '''', Literal ''''],
      [Literal '''', Literal '''', Literal ''''],
      [Literal ''#comment'', Literal '''', Literal '''']]\<rparr>"

text \<open>
  The header \<open>[name, , age]\<close> and the data row \<open>[x, ignored, 30]\<close>: as a table in
  memory, and as the file \<^verbatim>\<open>name,,age\r\nx,ignored,30\r\n\<close>.
\<close>

definition unnamed_column_csv :: string where
  "unnamed_column_csv = ''name,,age'' @ CRLF @ ''x,ignored,30'' @ CRLF"

definition unnamed_column :: CSVStaticTable where
  "unnamed_column = \<lparr>buf = None, cells =
     [[Literal ''name'', Literal '''', Literal ''age''],
      [Literal ''x'', Literal ''ignored'', Literal ''30'']]\<rparr>"

text \<open>
  A header and one data row that is no comment: as a table in memory, and as the file
  \<^verbatim>\<open>h\r\na\r\n\<close>.
\<close>

definition one_row_csv :: string where
  "one_row_csv = ''h'' @ CRLF @ ''a'' @ CRLF"

definition one_row :: CSVStaticTable where
  "one_row = \<lparr>buf = None, cells = [[Literal ''h''], [Literal ''a'']]\<rparr>"

text \<open>A header that starts with \<open>#\<close> and has an empty field, a comment row and a data row.\<close>

definition hash_header :: CSVStaticTable where
  "hash_header = \<lparr>buf = None, cells =
     [[Literal ''#id'', Literal ''''],
      [Literal ''#c'', Literal ''x''],
      [Literal ''a'', Literal ''b'']]\<rparr>"

section \<open>A second load into the same table\<close>

text \<open>
  A table loaded from \<^verbatim>\<open>h1,h2\r\n\<close> and then from \<^verbatim>\<open>p,q\r\n\<close>: \<^verbatim>\<open>cells.resize(1)\<close>
  keeps row 0, whose two pointers still read the first buffer, and the fields of the new
  line are pushed behind them. After a second load from a path that cannot be opened the
  row reads as before.
\<close>

lemma second_load_keeps_old_pointers:
  "(case ReadFile [''a.csv'' \<mapsto> ''h1,h2'' @ CRLF] empty_table ''a.csv'' 0 of
      Some (Inr (code, t, log)) \<Rightarrow>
        loaded (ReadFile [''b.csv'' \<mapsto> ''p,q'' @ CRLF] t ''b.csv'' 0) =
          Some (0, [[''h1'', ''h2'', ''p'', ''q'']], [Con_Printf_v (LoadingCSV ''b.csv'')])
        \<and> loaded (ReadFile Map.empty t ''b.csv'' 0) =
            Some (1, [[''h1'', ''h2'']],
                  [Con_Printf_v (LoadingCSV ''b.csv''),
                   Con_Error (UnableToOpenForReading ''b.csv'')])
    | _ \<Rightarrow> False)"
  by code_simp

section \<open>The claims\<close>

text \<open>
  C1. The claim: after a successful load of well-formed CSV, every cell holds the original
  field with the quoting undone, also when a quoted field is the last of its line.
  The code at two such inputs: \<^verbatim>\<open>csvtok\<close> returns a quoted field as a token even when
  no comma follows it, so \<^verbatim>\<open>ReadFile\<close> appends the empty rest of the line as one more
  field. A line that ends in a quoted field gets a field too many: under an unquoted
  header the load fails with code 2 and an empty table; where every line ends in a quoted
  field the load succeeds with a third, empty column that the input does not have.
\<close>

theorem quoted_last_field_adds_a_field:
  "ReadFile [''t.csv'' \<mapsto> quoted_last_csv] empty_table ''t.csv'' 0 =
     Some (Inr (2, \<lparr>buf = None, cells = []\<rparr>,
                [Con_Printf_v (LoadingCSV ''t.csv''), Con_Error (IncorrectFieldCount 1 3 2)]))
   \<and> loaded (ReadFile [''t.csv'' \<mapsto> all_quoted_csv] empty_table ''t.csv'' 0) =
       Some (0, [[''h1'', ''h2'', ''''], [''a'', ''b,c'', '''']],
             [Con_Printf_v (LoadingCSV ''t.csv'')])"
  by code_simp

text \<open>
  Quoted fields that a comma follows are read as the claim says: on
  \<^verbatim>\<open>h1,h2\r\n"a,b",c\r\n"say ""hi""",d\r\n\<close> the cells are the fields with the quoting
  undone.
\<close>

lemma quoted_inner_fields_load:
  "loaded (ReadFile [''t.csv'' \<mapsto> quoted_inner_csv] empty_table ''t.csv'' 0) =
     Some (0, [[''h1'', ''h2''], [''a,b'', ''c''], [''say '' @ [DQ] @ ''hi'' @ [DQ], ''d'']],
           [Con_Printf_v (LoadingCSV ''t.csv'')])"
  by code_simp

text \<open>
  C2. The claim: writing a loaded table and loading the output again gives the same rows,
  fields and cell contents. The code at \<^verbatim>\<open>h1,h2\r\na,b"c\r\n\<close>: the load succeeds with
  the rows \<open>[h1, h2]\<close> and \<open>[a, b"c]\<close>; \<^verbatim>\<open>WriteFile\<close> quotes the last field, writing
  \<^verbatim>\<open>h1,h2\r\na,"b""c"\r\n\<close>; loading that file fails with code 2 and an empty table.
\<close>

theorem write_then_read_loses_table:
  "loaded (ReadFile [''in.csv'' \<mapsto> inner_quote_csv] empty_table ''in.csv'' 0) =
     Some (0, [[''h1'', ''h2''], [''a'', ''b'' @ [DQ] @ ''c'']],
           [Con_Printf_v (LoadingCSV ''in.csv'')])
   \<and> (case ReadFile [''in.csv'' \<mapsto> inner_quote_csv] empty_table ''in.csv'' 0 of
         Some (Inr (code, t, log)) \<Rightarrow>
           (case WriteFile (\<lambda>p. True) [''in.csv'' \<mapsto> inner_quote_csv] t ''out.csv'' False of
              Inr (wcode, fs', wlog) \<Rightarrow>
                wcode = 0
                \<and> fs' ''out.csv'' =
                    Some (''h1,h2'' @ CRLF @ ''a,'' @ [DQ] @ ''b'' @ [DQ, DQ] @ ''c'' @ [DQ] @ CRLF)
                \<and> ReadFile fs' empty_table ''out.csv'' 0 =
                    Some (Inr (2, \<lparr>buf = None, cells = []\<rparr>,
                               [Con_Printf_v (LoadingCSV ''out.csv''),
                                Con_Error (IncorrectFieldCount 1 3 2)]))
            | Inl e \<Rightarrow> False)
       | _ \<Rightarrow> False)"
  by code_simp

text \<open>
  The same table does not come back either where a text stream writes \<^verbatim>\<open>'\n'\<close> as one
  byte: what \<^verbatim>\<open>PrintTable\<close> writes then holds no \<^verbatim>\<open>"\r\n"\<close>, and loading it gives a
  table with no row at all.
\<close>

lemma untranslated_output_has_no_lines:
  "(case ReadFile [''in.csv'' \<mapsto> inner_quote_csv] empty_table ''in.csv'' 0 of
      Some (Inr (code, t, log)) \<Rightarrow>
        (case PrintTable t False of
           Inr out \<Rightarrow>
             loaded (ReadFile [''out.csv'' \<mapsto> out] empty_table ''out.csv'' 0) =
               Some (0, [], [Con_Printf_v (LoadingCSV ''out.csv'')])
         | Inl e \<Rightarrow> False)
    | _ \<Rightarrow> False)"
  by code_simp

text \<open>
  C3. The claim: on the rows \<open>[a, , ]\<close>, \<open>[ , , ]\<close>, \<open>[#comment, , ]\<close> with both
  pruning flags, \<^verbatim>\<open>PruneRows\<close> removes the two last rows, returns 2 and stays inside the
  vector of rows. The code: once the comment row, the last row, is erased, the empty test
  of the same pass reads \<^verbatim>\<open>cells[r+1]\<close> without another look at \<^verbatim>\<open>RowCount()\<close>, one
  past the end of the vector. So it does on the table in memory, and in \<^verbatim>\<open>ReadFile\<close>
  when the rows come from a file loaded with both flags.
\<close>

theorem PruneRows_reads_past_last_row:
  "PruneRows (CSV_ST_PRUNE_EMPTY OR CSV_ST_PRUNE_COMMENTS) three_rows [] = Some (Inl OutOfRange)
   \<and> ReadFile [''t.csv'' \<mapsto> three_rows_csv] empty_table ''t.csv''
         (CSV_ST_PRUNE_EMPTY OR CSV_ST_PRUNE_COMMENTS) = Some (Inl OutOfRange)"
  by code_simp

text \<open>
  C4. The claim: on the header \<open>[name, , age]\<close> and the row \<open>[x, ignored, 30]\<close>,
  \<^verbatim>\<open>PruneColumns\<close> warns about \<open>ignored\<close> and leaves \<open>[name, age]\<close> and \<open>[x, 30]\<close>.
  The code: the inner loop runs over \<open>1 \<le> r < RowCount()\<close>, which is empty for a single
  data row, so no warning is logged, the data row keeps its three fields and only the
  header loses the column. So it does on the table in memory, and in \<^verbatim>\<open>ReadFile\<close> when
  the rows come from a file loaded with \<^verbatim>\<open>CSV_ST_PRUNE_EMPTY\<close>.
\<close>

theorem PruneColumns_skips_last_row:
  "PruneColumns unnamed_column [] =
     Inr (1,
          \<lparr>buf = None, cells =
             [[Literal ''name'', Literal ''age''],
              [Literal ''x'', Literal ''ignored'', Literal ''30'']]\<rparr>,
          [Con_Printf_v (PrunedColumns 1)])
   \<and> loaded (ReadFile [''t.csv'' \<mapsto> unnamed_column_csv] empty_table ''t.csv''
               CSV_ST_PRUNE_EMPTY) =
       Some (0, [[''name'', ''age''], [''x'', ''ignored'', ''30'']],
             [Con_Printf_v (LoadingCSV ''t.csv''), Con_Printf_v (PrunedColumns 1)])"
  by code_simp

subsection \<open>A pass of the row loop that changes nothing\<close>

text \<open>
  When a pass of the loop of \<^verbatim>\<open>PruneRows\<close> leaves the table and \<open>r\<close> as they are,
  whatever the count, the loop never returns.
\<close>

lemma prune_rows_loop_stuck:
  assumes more: "int r < RowCount t"
    and same: "\<And>n. prune_rows_body bits t r n = Inr (t, r, n)"
  shows "prune_rows_loop bits t r n = None"
proof (rule ccontr)
  assume "prune_rows_loop bits t r n \<noteq> None"
  then obtain res where res: "prune_rows_loop bits t r n = Some res"
    by auto
  have "\<not> (bits = bits \<and> t = t \<and> r = r)"
  proof (rule prune_rows_loop.raw_induct
      [where P = "\<lambda>b t' r' n' res'. \<not> (b = bits \<and> t' = t \<and> r' = r)", OF _ res])
    fix loop :: "32 word \<Rightarrow> CSVStaticTable \<Rightarrow> nat \<Rightarrow> nat \<Rightarrow> (fault + (CSVStaticTable \<times> nat)) option"
      and b t' r' n' res'
    assume IH: "\<And>b t' r' n' res'. loop b t' r' n' = Some res' \<Longrightarrow>
                  \<not> (b = bits \<and> t' = t \<and> r' = r)"
      and pass: "(if int r' < RowCount t'
                  then case prune_rows_body b t' r' n' of
                         Inl e \<Rightarrow> Some (Inl e)
                       | Inr (t'', r'', n'') \<Rightarrow> loop b t'' r'' n''
                  else Some (Inr (t', n'))) = Some res'"
    show "\<not> (b = bits \<and> t' = t \<and> r' = r)"
    proof
      assume here: "b = bits \<and> t' = t \<and> r' = r"
      with pass more have "loop bits t r n' = Some res'"
        by (simp add: same)
      from IH [OF this] show False by simp
    qed
  qed
  then show False by simp
qed

lemma comments_only_pass:
  "prune_rows_body CSV_ST_PRUNE_COMMENTS one_row 0 n = Inr (one_row, 0, n)"
  by (simp add: prune_rows_body_def prune_comment_row_def prune_empty_row_def one_row_def
      CSV_ST_PRUNE_COMMENTS_def CSV_ST_PRUNE_EMPTY_def cell_at_def vec_at_def first_char_def)

lemma one_row_csv_rows:
  "load_rows (one_row_csv @ [NUL]) [] =
     RowsDone [CHR ''h'', NUL, NUL, CHR ''a'', NUL, NUL, NUL] [[BufPtr 0], [BufPtr 3]]"
  by code_simp

lemma comments_only_pass_loaded:
  "prune_rows_body CSV_ST_PRUNE_COMMENTS
     \<lparr>buf = Some [CHR ''h'', NUL, NUL, CHR ''a'', NUL, NUL, NUL], cells = [[BufPtr 0], [BufPtr 3]]\<rparr>
     0 n =
   Inr (\<lparr>buf = Some [CHR ''h'', NUL, NUL, CHR ''a'', NUL, NUL, NUL], cells = [[BufPtr 0], [BufPtr 3]]\<rparr>,
        0, n)"
  by (simp add: prune_rows_body_def prune_comment_row_def prune_empty_row_def
      CSV_ST_PRUNE_COMMENTS_def CSV_ST_PRUNE_EMPTY_def cell_at_def vec_at_def first_char_def
      c_str_def)

text \<open>
  C5. The claim: \<^verbatim>\<open>PruneRows\<close> terminates for every table and every combination of
  flags, also with \<^verbatim>\<open>CSV_ST_PRUNE_COMMENTS\<close> alone. The code: \<open>r\<close> is advanced only
  inside the empty test, so with \<^verbatim>\<open>CSV_ST_PRUNE_COMMENTS\<close> alone a first data row that
  is no comment is examined again and again: on a header and one such row the loop never
  ends, and neither does \<^verbatim>\<open>ReadFile\<close> of the file \<^verbatim>\<open>h\r\na\r\n\<close> with that flag.
\<close>

theorem PruneRows_comments_only_never_returns:
  "PruneRows CSV_ST_PRUNE_COMMENTS one_row [] = None
   \<and> ReadFile [''t.csv'' \<mapsto> one_row_csv] empty_table ''t.csv'' CSV_ST_PRUNE_COMMENTS = None"
proof
  have flags: "CSV_ST_PRUNE_COMMENTS AND (CSV_ST_PRUNE_EMPTY OR CSV_ST_PRUNE_COMMENTS) \<noteq> 0"
    "CSV_ST_PRUNE_COMMENTS AND CSV_ST_PRUNE_EMPTY = 0"
    by (simp_all add: CSV_ST_PRUNE_COMMENTS_def CSV_ST_PRUNE_EMPTY_def)
  have "prune_rows_loop CSV_ST_PRUNE_COMMENTS one_row 0 0 = None"
  proof (rule prune_rows_loop_stuck)
    show "int 0 < RowCount one_row" by (simp add: RowCount_def one_row_def)
    show "\<And>n. prune_rows_body CSV_ST_PRUNE_COMMENTS one_row 0 n = Inr (one_row, 0, n)"
      by (rule comments_only_pass)
  qed
  with flags show "PruneRows CSV_ST_PRUNE_COMMENTS one_row [] = None"
    by (simp add: PruneRows_def)
  let ?t = "\<lparr>buf = Some [CHR ''h'', NUL, NUL, CHR ''a'', NUL, NUL, NUL],
             cells = [[BufPtr 0], [BufPtr 3]]\<rparr>"
  have "prune_rows_loop CSV_ST_PRUNE_COMMENTS ?t 0 0 = None"
  proof (rule prune_rows_loop_stuck)
    show "int 0 < RowCount ?t" by (simp add: RowCount_def)
    show "\<And>n. prune_rows_body CSV_ST_PRUNE_COMMENTS ?t 0 n = Inr (?t, 0, n)"
      by (rule comments_only_pass_loaded)
  qed
  with flags have "PruneRows CSV_ST_PRUNE_COMMENTS ?t [Con_Printf_v (LoadingCSV ''t.csv'')] = None"
    by (simp add: PruneRows_def)
  moreover have "one_row_csv \<noteq> []"
    by (simp add: one_row_csv_def)
  ultimately
  show "ReadFile [''t.csv'' \<mapsto> one_row_csv] empty_table ''t.csv'' CSV_ST_PRUNE_COMMENTS = None"
    using flags by (simp add: ReadFile_def Let_def one_row_csv_rows post_load_def empty_table_def)
qed

subsection \<open>Field counts and the line loop\<close>

lemma first_mismatch_from_exists:
  "k < length counts \<Longrightarrow> counts ! k \<noteq> expected \<Longrightarrow>
     \<exists>j found. first_mismatch_from expected i counts = Some (i + j, found) \<and> j \<le> k
       \<and> found = counts ! j \<and> found \<noteq> expected"
proof (induction counts arbitrary: k i)
  case Nil
  then show ?case by simp
next
  case (Cons c counts)
  show ?case
  proof (cases "c \<noteq> expected")
    case True
    then show ?thesis by (intro exI [of _ 0] exI [of _ c]) simp
  next
    case False
    with Cons.prems obtain k' where k': "k = Suc k'" by (cases k) auto
    with Cons.prems have "k' < length counts" and "counts ! k' \<noteq> expected" by simp_all
    from Cons.IH [OF this, of "Suc i"] obtain j found
      where "first_mismatch_from expected (Suc i) counts = Some (Suc i + j, found)"
        and "j \<le> k'" and "found = counts ! j" and "found \<noteq> expected"
      by blast
    with False k' show ?thesis
      by (intro exI [of _ "Suc j"] exI [of _ found]) simp
  qed
qed

lemma resize_new_row: "length cs = i \<Longrightarrow> resize cs (Suc i) = cs @ [[]]"
  by (simp add: resize_def)

lemma fill_new_row: "(cs @ [x])[length cs := row] = cs @ [row]"
  by (induction cs) auto

lemma read_rows_first_mismatch:
  "length cs = i \<Longrightarrow> 0 < i \<Longrightarrow>
   first_mismatch_from (length (cs ! 0)) i (line_counts_from tok lctx mem) = Some (k, found) \<Longrightarrow>
   read_rows i tok lctx mem cs = ShapeMismatch k found (length (cs ! 0))"
proof (induction tok lctx mem arbitrary: i cs rule: line_counts_from.induct)
  case (1 tok lctx mem)
  note lc = line_counts_from.simps [of tok lctx mem]
    and rr = read_rows.simps [of i tok lctx mem cs]
  from "1.prems"(1) have rs: "resize cs (Suc i) = cs @ [[]]" by (rule resize_new_row)
  from "1.prems"(1) have fill: "\<And>row. (cs @ [[]])[i := row] = cs @ [row]"
    using fill_new_row [of cs "[]"] by simp
  from "1.prems"(1,2) have hd0: "\<And>row. (cs @ [row]) ! 0 = cs ! 0"
    by (simp add: nth_append)
  show ?case
  proof (cases "read_fields mem tok []")
    case (Inl e)
    with lc "1.prems"(3) show ?thesis by simp
  next
    case (Inr res)
    obtain mem1 row where res: "res = (mem1, row)" by (cases res)
    let ?rest = "case strtok_c None CRLF mem1 lctx of
                   Inl e \<Rightarrow> []
                 | Inr (mem2, None, lctx') \<Rightarrow> []
                 | Inr (mem2, Some tok', lctx') \<Rightarrow> line_counts_from tok' lctx' mem2"
    from Inr res lc have counts: "line_counts_from tok lctx mem = length row # ?rest"
      by simp
    show ?thesis
    proof (cases "length row \<noteq> length (cs ! 0)")
      case True
      with counts "1.prems"(3) have "k = i" and "found = length row" by simp_all
      with True Inr res rs hd0 fill "1.prems"(1) show ?thesis
        by (simp add: rr Let_def)
    next
      case False
      with counts "1.prems"(3)
      have fm: "first_mismatch_from (length (cs ! 0)) (Suc i) ?rest = Some (k, found)"
        by simp
      show ?thesis
      proof (cases "strtok_c None CRLF mem1 lctx")
        case (Inl e)
        with fm show ?thesis by simp
      next
        case st: (Inr r2)
        obtain mem2 tko lctx' where r2: "r2 = (mem2, tko, lctx')" by (cases r2)
        show ?thesis
        proof (cases tko)
          case None
          with st r2 fm show ?thesis by simp
        next
          case (Some tok')
          with st r2 fm
          have "first_mismatch_from (length ((cs @ [row]) ! 0)) (Suc i)
                  (line_counts_from tok' lctx' mem2) = Some (k, found)"
            by (simp add: hd0)
          with "1.IH" [OF Inr res [symmetric] st r2 [symmetric] refl Some, where i = "Suc i" and cs = "cs @ [row]"]
            "1.prems"(1)
          have "read_rows (Suc i) tok' lctx' mem2 (cs @ [row]) =
                  ShapeMismatch k found (length (cs ! 0))"
            by (simp add: hd0)
          with False Inr res rs hd0 fill st r2 Some "1.prems"(1) show ?thesis
            by (simp add: rr Let_def)
        qed
      qed
    qed
  qed
qed

lemma load_rows_first_mismatch:
  assumes k: "k < length (line_field_counts data)"
    and ne: "line_field_counts data ! k \<noteq> line_field_counts data ! 0"
  shows "\<exists>i found. i \<le> k \<and> found = line_field_counts data ! i
           \<and> found \<noteq> line_field_counts data ! 0
           \<and> load_rows (data @ [NUL]) [] = ShapeMismatch i found (line_field_counts data ! 0)"
proof -
  let ?counts = "line_field_counts data"
  from k have nonempty: "?counts \<noteq> []" by auto
  then obtain mem1 tok lctx
    where st: "strtok_c (Some 0) CRLF (data @ [NUL]) 0 = Inr (mem1, Some tok, lctx)"
      and counts: "?counts = line_counts_from tok lctx mem1"
    by (auto simp: line_field_counts_def split: sum.splits option.splits)
  note lc = line_counts_from.simps [of tok lctx mem1]
  from nonempty counts lc obtain m1 row where rf: "read_fields mem1 tok [] = Inr (m1, row)"
    by (cases "read_fields mem1 tok []") auto
  let ?rest = "case strtok_c None CRLF m1 lctx of
                 Inl e \<Rightarrow> []
               | Inr (mem2, None, lctx') \<Rightarrow> []
               | Inr (mem2, Some tok', lctx') \<Rightarrow> line_counts_from tok' lctx' mem2"
  from rf lc counts have cons: "?counts = length row # ?rest" by simp
  from ne obtain k' where k': "k = Suc k'" by (cases k) auto
  with k ne cons have "k' < length ?rest" and "?rest ! k' \<noteq> length row" by simp_all
  from first_mismatch_from_exists [OF this, of 1] obtain j found
    where fm: "first_mismatch_from (length row) 1 ?rest = Some (1 + j, found)"
      and j: "j \<le> k'" and found: "found = ?rest ! j" and fne: "found \<noteq> length row"
    by blast
  from \<open>k' < length ?rest\<close> obtain mem2 tok' lctx'
    where st2: "strtok_c None CRLF m1 lctx = Inr (mem2, Some tok', lctx')"
    by (auto split: sum.splits option.splits)
  with fm have "first_mismatch_from (length ([row] ! 0)) 1 (line_counts_from tok' lctx' mem2)
                  = Some (1 + j, found)"
    by simp
  from read_rows_first_mismatch [OF _ _ this]
  have rec: "read_rows 1 tok' lctx' mem2 [row] = ShapeMismatch (1 + j) found (length row)"
    by simp
  have "read_rows 0 tok lctx mem1 [] = ShapeMismatch (1 + j) found (length row)"
    using rf st2 rec by (simp add: read_rows.simps [of 0 tok lctx mem1 "[]"] resize_def)
  with st have "load_rows (data @ [NUL]) [] = ShapeMismatch (1 + j) found (length row)"
    by (simp add: load_rows_def)
  with j k' found fne cons show ?thesis
    by (intro exI [of _ "1 + j"] exI [of _ found]) simp
qed

lemma line_field_counts_empty: "line_field_counts [] = []"
  by (simp add: line_field_counts_def strtok_c_def strstr_def c_str_def CRLF_def)

text \<open>
  C6. If any line of the input (line \<open>k\<close>) yields a field count different from the count
  of row 0, \<^verbatim>\<open>ReadFile\<close> into a table with no rows returns 2: it logs the error for the
  first such row \<open>i\<close>, with the count found there and the count of row 0 as expected,
  and leaves the table with no rows and no buffer.
\<close>

theorem field_count_mismatch_fails_load:
  "fs path = Some data \<and> cells t = [] \<and> k < length (line_field_counts data)
     \<and> line_field_counts data ! k \<noteq> line_field_counts data ! 0 \<longrightarrow>
   (\<exists>i found. i \<le> k \<and> found = line_field_counts data ! i
      \<and> found \<noteq> line_field_counts data ! 0
      \<and> ReadFile fs t path loadflags =
          Some (Inr (2, t\<lparr>buf := None, cells := []\<rparr>,
                     [Con_Printf_v (LoadingCSV path),
                      Con_Error (IncorrectFieldCount i found (line_field_counts data ! 0))])))"
proof
  assume a: "fs path = Some data \<and> cells t = [] \<and> k < length (line_field_counts data)
               \<and> line_field_counts data ! k \<noteq> line_field_counts data ! 0"
  then have "data \<noteq> []" using line_field_counts_empty by auto
  from a load_rows_first_mismatch [of k data] obtain i found
    where "i \<le> k" and "found = line_field_counts data ! i"
      and "found \<noteq> line_field_counts data ! 0"
      and lr: "load_rows (data @ [NUL]) [] = ShapeMismatch i found (line_field_counts data ! 0)"
    by blast
  moreover from a lr \<open>data \<noteq> []\<close>
  have "ReadFile fs t path loadflags =
          Some (Inr (2, t\<lparr>buf := None, cells := []\<rparr>,
                     [Con_Printf_v (LoadingCSV path),
                      Con_Error (IncorrectFieldCount i found (line_field_counts data ! 0))]))"
    by (simp add: ReadFile_def Let_def)
  ultimately show "\<exists>i found. i \<le> k \<and> found = line_field_counts data ! i
      \<and> found \<noteq> line_field_counts data ! 0
      \<and> ReadFile fs t path loadflags =
          Some (Inr (2, t\<lparr>buf := None, cells := []\<rparr>,
                     [Con_Printf_v (LoadingCSV path),
                      Con_Error (IncorrectFieldCount i found (line_field_counts data ! 0))]))"
    by blast
qed

theorem field_count_mismatch_fails_load_witness:
  "line_field_counts quoted_last_csv = [2, 3]
   \<and> (\<exists>i found. i \<le> 1 \<and> found = [2, 3] ! i \<and> found \<noteq> 2
        \<and> ReadFile [''t.csv'' \<mapsto> quoted_last_csv] empty_table ''t.csv'' 0 =
            Some (Inr (2, \<lparr>buf = None, cells = []\<rparr>,
                       [Con_Printf_v (LoadingCSV ''t.csv''),
                        Con_Error (IncorrectFieldCount i found 2)])))"
proof -
  have c: "line_field_counts quoted_last_csv = [2, 3]"
    by code_simp
  have h: "[''t.csv'' \<mapsto> quoted_last_csv] ''t.csv'' = Some quoted_last_csv
             \<and> cells empty_table = [] \<and> 1 < length (line_field_counts quoted_last_csv)
             \<and> line_field_counts quoted_last_csv ! 1 \<noteq> line_field_counts quoted_last_csv ! 0"
    by (simp add: c empty_table_def)
  have e: "empty_table\<lparr>buf := None, cells := []\<rparr> = \<lparr>buf = None, cells = []\<rparr>"
    by (simp add: empty_table_def)
  from field_count_mismatch_fails_load
    [of "[''t.csv'' \<mapsto> quoted_last_csv]" "''t.csv''" quoted_last_csv empty_table 1 0] h
  have "\<exists>i found. i \<le> 1 \<and> found = line_field_counts quoted_last_csv ! i
      \<and> found \<noteq> line_field_counts quoted_last_csv ! 0
      \<and> ReadFile [''t.csv'' \<mapsto> quoted_last_csv] empty_table ''t.csv'' 0 =
          Some (Inr (2, empty_table\<lparr>buf := None, cells := []\<rparr>,
                     [Con_Printf_v (LoadingCSV ''t.csv''),
                      Con_Error (IncorrectFieldCount i found (line_field_counts quoted_last_csv ! 0))]))"
    by blast
  with c show ?thesis by (simp add: e)
qed

text \<open>
  C7 as stated fails. On \<^verbatim>\<open>alpha\nbeta\n\<close> no \<^verbatim>\<open>"\r\n"\<close> is found, so no line is
  read, and the headerless mode leaves the header \<open>[name]\<close> alone, with no data row.
\<close>

theorem headerless_bare_lf_has_no_rows:
  "loaded (ReadFile [''names.txt'' \<mapsto> bare_lf_csv] empty_table ''names.txt''
             CSV_ST_HEADERLESS_SINGLEFIELD) =
       Some (0, [[''name'']], [Con_Printf_v (LoadingCSV ''names.txt'')])
   \<and> loaded (ReadFile [''names.txt'' \<mapsto> bare_lf_csv] empty_table ''names.txt''
               CSV_ST_HEADERLESS_SINGLEFIELD) \<noteq>
         Some (0, [[''name''], [''alpha''], [''beta'']], [Con_Printf_v (LoadingCSV ''names.txt'')])"
  by code_simp

text \<open>
  C7, amended. Loading \<^verbatim>\<open>alpha\r\nbeta\r\n\<close> (the line ends \<^verbatim>\<open>ReadFile\<close> splits at)
  with \<^verbatim>\<open>CSV_ST_HEADERLESS_SINGLEFIELD\<close> returns 0 and gives the header \<open>[name]\<close> and
  exactly the two data rows \<open>[alpha]\<close> and \<open>[beta]\<close>.
\<close>

theorem headerless_crlf_two_rows:
  "loaded (ReadFile [''names.txt'' \<mapsto> crlf_csv] empty_table ''names.txt''
             CSV_ST_HEADERLESS_SINGLEFIELD) =
     Some (0, [[''name''], [''alpha''], [''beta'']], [Con_Printf_v (LoadingCSV ''names.txt'')])"
  by code_simp

text \<open>
  C8. The claim: every error exit of \<^verbatim>\<open>ReadFile\<close> releases the buffer. The code: the
  exits with codes 1 and 2 delete the buffer and set \<^verbatim>\<open>buf\<close> to NULL, the exit
  \<^verbatim>\<open>if (read <= 0) return 3;\<close> does neither: after loading an empty file the table
  still holds the one-byte buffer.
\<close>

theorem empty_file_keeps_buffer:
  "ReadFile [''empty.csv'' \<mapsto> ''''] empty_table ''empty.csv'' loadflags =
     Some (Inr (3, \<lparr>buf = Some [NUL], cells = []\<rparr>, [Con_Printf_v (LoadingCSV ''empty.csv'')]))"
  by (simp add: ReadFile_def empty_table_def)

text \<open>
  C9. When the path exists and \<open>overwrite\<close> is false, \<^verbatim>\<open>WriteFile\<close> logs an error and
  returns 1 with the file system as it was: nothing is opened or written. Whenever it
  returns another code (0 after writing, 2 when the open for writing failed), the path
  did not exist or \<open>overwrite\<close> was true.
\<close>

theorem WriteFile_refuses_to_overwrite:
  "(fs path \<noteq> None \<and> \<not> overwrite \<longrightarrow>
      WriteFile writable fs t path overwrite = Inr (1, fs, [Con_Error (FileAlreadyExists path)]))
   \<and> (WriteFile writable fs t path overwrite = Inr (code, fs', log) \<and> code \<noteq> 1 \<longrightarrow>
        fs path = None \<or> overwrite)"
  by (auto simp: WriteFile_def split: if_splits sum.splits)

theorem WriteFile_refuses_to_overwrite_witness:
  "([''out.csv'' \<mapsto> ''old''] ''out.csv'' \<noteq> None \<and> \<not> False)
   \<and> WriteFile (\<lambda>p. True) [''out.csv'' \<mapsto> ''old''] unnamed_column ''out.csv'' False =
       Inr (1, [''out.csv'' \<mapsto> ''old''], [Con_Error (FileAlreadyExists ''out.csv'')])
   \<and> WriteFile (\<lambda>p. True) [''out.csv'' \<mapsto> ''old''] unnamed_column ''out.csv'' True =
       Inr (0, [''out.csv'' \<mapsto> ''name,,age'' @ CRLF @ ''x,ignored,30'' @ CRLF], [])
   \<and> ([''out.csv'' \<mapsto> ''old''] ''out.csv'' = None \<or> True)"
proof -
  have w: "WriteFile (\<lambda>p. True) [''out.csv'' \<mapsto> ''old''] unnamed_column ''out.csv'' True =
             Inr (0, [''out.csv'' \<mapsto> ''name,,age'' @ CRLF @ ''x,ignored,30'' @ CRLF], [])"
    by (simp add: WriteFile_def PrintTable_def contents_def unnamed_column_def print_field_def
        text_mode_def CRLF_def)
  have e: "[''out.csv'' \<mapsto> ''old''] ''out.csv'' \<noteq> None \<and> \<not> False"
    by simp
  from WriteFile_refuses_to_overwrite
    [of "[''out.csv'' \<mapsto> ''old'']" "''out.csv''" False "\<lambda>p. True" unnamed_column] e
  have r: "WriteFile (\<lambda>p. True) [''out.csv'' \<mapsto> ''old''] unnamed_column ''out.csv'' False =
             Inr (1, [''out.csv'' \<mapsto> ''old''], [Con_Error (FileAlreadyExists ''out.csv'')])"
    by blast
  from WriteFile_refuses_to_overwrite
    [of "[''out.csv'' \<mapsto> ''old'']" "''out.csv''" True "\<lambda>p. True" unnamed_column 0
        "[''out.csv'' \<mapsto> ''name,,age'' @ CRLF @ ''x,ignored,30'' @ CRLF]" "[]"] w
  have o: "[''out.csv'' \<mapsto> ''old''] ''out.csv'' = None \<or> True"
    by blast
  from e r w o show ?thesis by blast
qed

subsection \<open>The header row under row removal\<close>

lemma vec_erase_keeps_first:
  assumes "vec_erase v (1 + i) = Inr v'" and "0 \<le> i"
  shows "take 1 v' = take 1 v"
proof -
  from assms have v': "v' = take (nat (1 + i)) v @ drop (Suc (nat (1 + i))) v"
    and inb: "1 + i < int (length v)"
    by (auto simp: vec_erase_def split: if_splits)
  from assms(2) obtain k where k: "nat (1 + i) = Suc k"
    by (cases "nat (1 + i)") auto
  from inb k have "Suc k < length v" by linarith
  then obtain x xs where "v = x # xs" by (cases v) auto
  with v' k show ?thesis by simp
qed

lemma prune_comment_row_header:
  "prune_comment_row bits t r n = Inr (t', r', n') \<Longrightarrow> take 1 (cells t') = take 1 (cells t)"
  using vec_erase_keeps_first [of "cells t" "int r"]
  by (auto simp: prune_comment_row_def add.commute split: if_splits sum.splits)

lemma prune_empty_row_header:
  "prune_empty_row bits t r n = Inr (t', r', n') \<Longrightarrow> take 1 (cells t') = take 1 (cells t)"
  using vec_erase_keeps_first [of "cells t" "int r"]
  by (auto simp: prune_empty_row_def add.commute split: if_splits sum.splits)

lemma prune_rows_body_header:
  assumes "prune_rows_body bits t r n = Inr (t', r', n')"
  shows "take 1 (cells t') = take 1 (cells t)"
proof -
  from assms obtain t1 r1 n1 where a: "prune_comment_row bits t r n = Inr (t1, r1, n1)"
    and b: "prune_empty_row bits t1 r1 n1 = Inr (t', r', n')"
    by (auto simp: prune_rows_body_def split: sum.splits)
  from prune_comment_row_header [OF a] prune_empty_row_header [OF b] show ?thesis
    by simp
qed

lemma prune_rows_loop_header:
  assumes "prune_rows_loop bits t r n = Some res"
  shows "\<forall>t' n'. res = Inr (t', n') \<longrightarrow> take 1 (cells t') = take 1 (cells t)"
proof (rule prune_rows_loop.raw_induct
    [where P = "\<lambda>bits t r n res. \<forall>t' n'. res = Inr (t', n') \<longrightarrow> take 1 (cells t') = take 1 (cells t)",
      OF _ assms])
  fix loop :: "32 word \<Rightarrow> CSVStaticTable \<Rightarrow> nat \<Rightarrow> nat \<Rightarrow> (fault + (CSVStaticTable \<times> nat)) option"
    and bits t r n res
  assume IH: "\<And>bits t r n res. loop bits t r n = Some res \<Longrightarrow>
                \<forall>t' n'. res = Inr (t', n') \<longrightarrow> take 1 (cells t') = take 1 (cells t)"
    and pass: "(if int r < RowCount t
                then case prune_rows_body bits t r n of
                       Inl e \<Rightarrow> Some (Inl e)
                     | Inr (t', r', pruned') \<Rightarrow> loop bits t' r' pruned'
                else Some (Inr (t, n))) = Some res"
  show "\<forall>t' n'. res = Inr (t', n') \<longrightarrow> take 1 (cells t') = take 1 (cells t)"
  proof (cases "int r < RowCount t")
    case False
    with pass show ?thesis by auto
  next
    case True
    show ?thesis
    proof (cases "prune_rows_body bits t r n")
      case (Inl e)
      with True pass show ?thesis by auto
    next
      case (Inr s)
      obtain t1 r1 n1 where s: "s = (t1, r1, n1)" by (cases s)
      with True Inr pass have "loop bits t1 r1 n1 = Some res" by simp
      from IH [OF this] prune_rows_body_header [OF Inr [unfolded s]] show ?thesis
        by simp
    qed
  qed
qed

text \<open>
  C10 as stated fails. \<^verbatim>\<open>DeleteRow\<close> erases at \<^verbatim>\<open>cells.begin() + 1 + row_index\<close> and
  does not look at its index: with the index \<open>-1\<close> the erased position is row 0, and the
  table loses its header.
\<close>

theorem DeleteRow_minus_one_erases_header:
  "DeleteRow hash_header (- 1) =
     Inr \<lparr>buf = None, cells = [[Literal ''#c'', Literal ''x''], [Literal ''a'', Literal ''b'']]\<rparr>
   \<and> cells hash_header =
       [Literal ''#id'', Literal ''''] # [[Literal ''#c'', Literal ''x''], [Literal ''a'', Literal ''b'']]
   \<and> \<not> (\<exists>rows'. [[Literal ''#c'', Literal ''x''], [Literal ''a'', Literal ''b'']]
                   = [Literal ''#id'', Literal ''''] # rows')"
  by (simp add: DeleteRow_def vec_erase_def hash_header_def)

text \<open>
  C10, amended. Row 0 of the cell grid, the header, survives the removal of data rows:
  when \<^verbatim>\<open>PruneRows\<close> returns, with any flags, the grid still starts with the same header
  row, whatever the header holds; and so it does after \<^verbatim>\<open>DeleteRow\<close> of a data row
  (an index from 0 on).
\<close>

theorem header_row_is_never_removed:
  "(cells t = header # rows \<and> PruneRows bits t log = Some (Inr (n, t', log')) \<longrightarrow>
      (\<exists>rows'. cells t' = header # rows'))
   \<and> (cells t = header # rows \<and> 0 \<le> row_index \<and> DeleteRow t row_index = Inr t'' \<longrightarrow>
        (\<exists>rows'. cells t'' = header # rows'))"
proof (intro conjI impI)
  assume a: "cells t = header # rows \<and> PruneRows bits t log = Some (Inr (n, t', log'))"
  have "take 1 (cells t') = take 1 (cells t)"
  proof (cases "bits AND (CSV_ST_PRUNE_EMPTY OR CSV_ST_PRUNE_COMMENTS) = 0")
    case True
    with a show ?thesis by (simp add: PruneRows_def)
  next
    case False
    with a obtain k where "prune_rows_loop bits t 0 0 = Some (Inr (t', k))"
      by (auto simp: PruneRows_def split: option.splits sum.splits)
    from prune_rows_loop_header [OF this] show ?thesis by simp
  qed
  with a show "\<exists>rows'. cells t' = header # rows'"
    by (cases "cells t'") auto
next
  assume b: "cells t = header # rows \<and> 0 \<le> row_index \<and> DeleteRow t row_index = Inr t''"
  then obtain cs where "vec_erase (cells t) (1 + row_index) = Inr cs" and "cells t'' = cs"
    by (auto simp: DeleteRow_def split: sum.splits)
  with vec_erase_keeps_first [of "cells t" row_index cs] b
  have "take 1 (cells t'') = take 1 (cells t)" by simp
  with b show "\<exists>rows'. cells t'' = header # rows'"
    by (cases "cells t''") auto
qed

theorem header_row_is_never_removed_witness:
  "PruneRows (CSV_ST_PRUNE_EMPTY OR CSV_ST_PRUNE_COMMENTS) hash_header [] =
     Some (Inr (1, \<lparr>buf = None, cells = [[Literal ''#id'', Literal ''''], [Literal ''a'', Literal ''b'']]\<rparr>,
                [Con_Printf_v (PrunedRows 1)]))
   \<and> DeleteRow hash_header 0 =
       Inr \<lparr>buf = None, cells = [[Literal ''#id'', Literal ''''], [Literal ''a'', Literal ''b'']]\<rparr>
   \<and> (\<exists>rows'. [[Literal ''#id'', Literal ''''], [Literal ''a'', Literal ''b'']]
                 = [Literal ''#id'', Literal ''''] # rows')"
proof -
  let ?t' = "\<lparr>buf = None, cells = [[Literal ''#id'', Literal ''''], [Literal ''a'', Literal ''b'']]\<rparr>"
  have c: "cells hash_header =
             [Literal ''#id'', Literal ''''] # [[Literal ''#c'', Literal ''x''], [Literal ''a'', Literal ''b'']]"
    by (simp add: hash_header_def)
  have p: "PruneRows (CSV_ST_PRUNE_EMPTY OR CSV_ST_PRUNE_COMMENTS) hash_header [] =
             Some (Inr (1, ?t', [Con_Printf_v (PrunedRows 1)]))"
    by code_simp
  have d: "DeleteRow hash_header 0 = Inr ?t'"
    by code_simp
  from header_row_is_never_removed
    [of hash_header "[Literal ''#id'', Literal '''']"
        "[[Literal ''#c'', Literal ''x''], [Literal ''a'', Literal ''b'']]"
        "CSV_ST_PRUNE_EMPTY OR CSV_ST_PRUNE_COMMENTS" "[]" 1 ?t' "[Con_Printf_v (PrunedRows 1)]" 0 ?t']
    c p d
  have "\<exists>rows'. cells ?t' = [Literal ''#id'', Literal ''''] # rows'"
    by blast
  with p d show ?thesis by simp
qed

end
